theory Spec2Isabelle
  imports Main
begin

section \<open>Exceptions\<close>

text \<open>
  Every exception the program can meet is a value. \<open>NoContentGeneratedException\<close> is the
  class declared in \<^verbatim>\<open>main.py\<close>, \<open>RateLimitError\<close> is the one imported from the
  inference library; both carry their message. \<open>OtherException\<close> stands for any other
  subclass of \<^verbatim>\<open>Exception\<close> that an external call raises. The remaining ones are
  the built-in exceptions raised by the interpreter itself.
\<close>

datatype error =
    NoContentGeneratedException string
  | RateLimitError string
  | OtherException string
  | IndexError
  | TypeError
  | KeyError
  | FileNotFoundError

section \<open>The canned response and the extraction pattern\<close>

text \<open>\<^verbatim>\<open>FAILED_RESPONSE\<close>, line by line; the literal starts and ends with a line break.\<close>

definition nl :: string where
  "nl = [CHR 0x0A]"

definition FAILED_RESPONSE :: string where
  \<open>FAILED_RESPONSE = concat (map (\<lambda>l. l @ nl)
     [[],
      ''import sys'',
      [],
      ''def main():'',
      ''    input = sys.stdin.read'',
      ''    data = input().split()'',
      ''    '',
      ''    # do nothing, this is a canned response so that the eval for'',
      ''    # this task can silently fail'',
      [],
      ''    print(data)'',
      [],
      ''if __name__ == "__main__":'',
      ''    main()''])\<close>

text \<open>
  \<^verbatim>\<open>REGEX_FOR_PY_CODE_EXTRACTION\<close> is the literal opening fence, a lazily repeated
  any-character group (the caller passes \<^verbatim>\<open>re.DOTALL\<close>, so the dot also matches a
  line break) and the literal closing fence.
\<close>

definition open_fence :: string where
  "open_fence = ''```python'' @ nl"

definition close_fence :: string where
  "close_fence = ''```''"

section \<open>Matching the pattern\<close>

text \<open>Matching a literal at the head of the text: the rest of the text when it is there.\<close>

fun strip_prefix :: "string \<Rightarrow> string \<Rightarrow> string option" where
  "strip_prefix [] s = Some s"
| "strip_prefix (p # ps) [] = None"
| "strip_prefix (p # ps) (c # cs) = (if p = c then strip_prefix ps cs else None)"

text \<open>
  The lazy group followed by a literal: the matcher first tries the literal where it stands
  and only when that fails lets the group take one more character. The result is the
  captured group and the text after the literal.
\<close>

fun lazy_until :: "string \<Rightarrow> string \<Rightarrow> (string \<times> string) option" where
  "lazy_until p [] = (case strip_prefix p [] of
       Some rest \<Rightarrow> Some ([], rest)
     | None \<Rightarrow> None)"
| "lazy_until p (c # cs) = (case strip_prefix p (c # cs) of
       Some rest \<Rightarrow> Some ([], rest)
     | None \<Rightarrow> (case lazy_until p cs of
           None \<Rightarrow> None
         | Some (g, rest) \<Rightarrow> Some (c # g, rest)))"

text \<open>One attempt of the whole pattern at the head of the text.\<close>

definition match_here :: "string \<Rightarrow> (string \<times> string) option" where
  "match_here s = (case strip_prefix open_fence s of
       None \<Rightarrow> None
     | Some rest \<Rightarrow> lazy_until close_fence rest)"

lemma strip_prefix_length:
  "strip_prefix p s = Some rest \<Longrightarrow> length rest + length p = length s"
  by (induction p s rule: strip_prefix.induct) (auto split: if_splits)

lemma lazy_until_length:
  "lazy_until p s = Some (g, rest) \<Longrightarrow> length g + length p + length rest = length s"
proof (induction p s arbitrary: g rest rule: lazy_until.induct)
  case (1 p)
  then show ?case
    by (auto split: option.splits dest: strip_prefix_length)
next
  case (2 p c cs)
  show ?case
  proof (cases "strip_prefix p (c # cs)")
    case None
    with 2 show ?thesis
      by (auto split: option.splits)
  next
    case (Some r)
    with 2 show ?thesis
      by (auto dest: strip_prefix_length)
  qed
qed

lemma match_here_shorter:
  "match_here s = Some (g, rest) \<Longrightarrow> length rest < length s"
  by (auto simp: match_here_def open_fence_def nl_def split: option.splits
      dest!: strip_prefix_length lazy_until_length)

text \<open>
  \<^verbatim>\<open>re.findall\<close> with one group: the pattern is tried at each position from left to
  right; a match contributes its group and the scan goes on behind the match, a failure
  moves the scan one character on.
\<close>

function findall :: "string \<Rightarrow> string list" where
  "findall s = (case match_here s of
       Some (g, rest) \<Rightarrow> g # findall rest
     | None \<Rightarrow> (case s of [] \<Rightarrow> [] | c # cs \<Rightarrow> findall cs))"
  by pat_completeness auto
termination
  by (relation "measure length") (auto dest: match_here_shorter)

section \<open>The code extractor\<close>

text \<open>
  What \<^verbatim>\<open>re.findall\<close> hands back is a list object; the extractor compares it with
  \<^verbatim>\<open>None\<close> before indexing it, so the model keeps both shapes of a value.
\<close>

datatype matches = PyNone | PyList "string list"

definition re_findall :: "string \<Rightarrow> matches" where
  "re_findall text = PyList (findall text)"

text \<open>
  \<^verbatim>\<open>_get_python_code\<close> with the default pattern: the \<^verbatim>\<open>is None\<close> branch returns the
  failure response, otherwise \<^verbatim>\<open>matches[0]\<close> is returned, which raises
  \<^verbatim>\<open>IndexError\<close> on the empty list.
\<close>

definition get_python_code :: "string \<Rightarrow> string \<Rightarrow> error + string" where
  "get_python_code text failure_response = (case re_findall text of
       PyNone \<Rightarrow> Inr failure_response
     | PyList ms \<Rightarrow> (case ms of [] \<Rightarrow> Inl IndexError | m # _ \<Rightarrow> Inr m))"

section \<open>The inference call and its surroundings\<close>

text \<open>
  Of the structured result of one inference call the program reads the completion-token
  count (\<^verbatim>\<open>response['usage']['completion_tokens']\<close>) and the text of the first
  message (\<^verbatim>\<open>response["choices"][0]["message"]["content"]\<close>).
\<close>

record model_response =
  completion_tokens :: nat
  content :: string

text \<open>One call of the external \<^verbatim>\<open>completion\<close> either returns or raises.\<close>

datatype outcome = Returns model_response | Raises error

text \<open>
  Everything outside the program: the inference service (what its \<open>n\<close>-th call answers
  for a model name and a prompt), the random number generator (its \<open>n\<close>-th raw output),
  the file system (the contents of a path, \<open>None\<close> when no file is there) and
  \<^verbatim>\<open>str.format\<close> (template and question to the formatted prompt, or the exception it
  raises). The inference parameters are the same constants at every call and are left out.
\<close>

record env =
  completion :: "nat \<Rightarrow> string \<Rightarrow> string \<Rightarrow> outcome"
  random_source :: "nat \<Rightarrow> nat"
  files :: "string \<Rightarrow> string option"
  format :: "string \<Rightarrow> string \<Rightarrow> error + string"

text \<open>
  The effects of a run: the number of inference calls made, the number of random draws
  taken, the arguments of \<^verbatim>\<open>time.sleep\<close> in order, and the identifiers of the tasks
  whose \<^verbatim>\<open>response\<close> field has been assigned, in order.
\<close>

record world =
  calls :: nat
  draws :: nat
  slept :: "int list"
  assigned :: "string list"

definition call_completion :: "env \<Rightarrow> string \<Rightarrow> string \<Rightarrow> world \<Rightarrow> outcome \<times> world" where
  "call_completion e model prompt w =
     (completion e (calls w) model prompt, w\<lparr>calls := Suc (calls w)\<rparr>)"

text \<open>
  \<^verbatim>\<open>random.randint(a, b)\<close> returns an integer between \<open>a\<close> and \<open>b\<close>, both included:
  the next raw output of the generator, reduced into that range.
\<close>

definition randint :: "env \<Rightarrow> int \<Rightarrow> int \<Rightarrow> world \<Rightarrow> int \<times> world" where
  "randint e a b w =
     (a + int (random_source e (draws w)) mod (b - a + 1), w\<lparr>draws := Suc (draws w)\<rparr>)"

definition sleep :: "int \<Rightarrow> world \<Rightarrow> world" where
  "sleep secs w = w\<lparr>slept := slept w @ [secs]\<rparr>"

section \<open>The retry loop\<close>

definition max_retries :: int where
  "max_retries = 10"

definition retry_delay :: int where
  "retry_delay = 60"

text \<open>
  The body of the \<^verbatim>\<open>try\<close>: the inference call, then the check for an empty
  completion, which raises the program's own exception.
\<close>

definition try_completion :: "env \<Rightarrow> string \<Rightarrow> string \<Rightarrow> world \<Rightarrow> (error + model_response) \<times> world" where
  "try_completion e model prompt w = (case call_completion e model prompt w of
       (Raises x, w1) \<Rightarrow> (Inl x, w1)
     | (Returns r, w1) \<Rightarrow>
         if completion_tokens r = 0
         then (Inl (NoContentGeneratedException (''completion tokens is 0, content='' @ content r)), w1)
         else (Inr r, w1))"

text \<open>
  What both retrying handlers do before \<^verbatim>\<open>continue\<close>: the delay grows with the
  attempt, a random jitter is added, and the program sleeps for the sum.
\<close>

definition backoff :: "env \<Rightarrow> int \<Rightarrow> world \<Rightarrow> world" where
  "backoff e attempt w =
     (let (jitter, w1) = randint e 1 10 w;
          this_retry_delay = retry_delay * (attempt + 1) + jitter
      in sleep this_retry_delay w1)"

text \<open>
  \<^verbatim>\<open>for attempt in range(max_retries)\<close>, from the given attempt on. The handlers are
  tried in the order of the source: the program's own exception, the rate-limit error,
  then every other exception. A loop that runs out without returning or raising makes
  the function return \<^verbatim>\<open>None\<close>.
\<close>

function retry_loop ::
  "env \<Rightarrow> string \<Rightarrow> string \<Rightarrow> int \<Rightarrow> world \<Rightarrow> (error + model_response option) \<times> world" where
  "retry_loop e model prompt attempt w =
     (if attempt < max_retries then
        (case try_completion e model prompt w of
           (Inr r, w1) \<Rightarrow> (Inr (Some r), w1)
         | (Inl (NoContentGeneratedException m), w1) \<Rightarrow>
             if attempt < max_retries - 1
             then retry_loop e model prompt (attempt + 1) (backoff e attempt w1)
             else (Inl (NoContentGeneratedException m), w1)
         | (Inl (RateLimitError m), w1) \<Rightarrow>
             if attempt < max_retries - 1
             then retry_loop e model prompt (attempt + 1) (backoff e attempt w1)
             else (Inl (RateLimitError m), w1)
         | (Inl x, w1) \<Rightarrow> (Inl x, w1))
      else (Inr None, w))"
  by pat_completeness auto
termination
  by (relation "measure (\<lambda>(e, model, prompt, attempt, w). nat (max_retries - attempt))") auto

definition process_task ::
  "env \<Rightarrow> string \<Rightarrow> string \<Rightarrow> world \<Rightarrow> (error + model_response option) \<times> world" where
  "process_task e model prompt w = retry_loop e model prompt 0 w"

section \<open>The run over all tasks\<close>

record task =
  description :: string
  response :: "string option"

record kwargs =
  model_name :: string
  prompt_template_path :: string

text \<open>
  The \<^verbatim>\<open>try\<close> block of one task: format the prompt, run the inference, read the
  content of the response (a \<^verbatim>\<open>TypeError\<close> when the response is \<^verbatim>\<open>None\<close>) and
  extract the code from it. The dictionary \<^verbatim>\<open>results\<close> only holds the content between
  these two steps and is not modelled.
\<close>

definition try_block :: "env \<Rightarrow> kwargs \<Rightarrow> string \<Rightarrow> task \<Rightarrow> world \<Rightarrow> (error + string) \<times> world" where
  "try_block e kw prompt_template t w =
     (case format e prompt_template (description t) of
        Inl x \<Rightarrow> (Inl x, w)
      | Inr formatted_prompt \<Rightarrow>
          (case process_task e (model_name kw) formatted_prompt w of
             (Inl x, w1) \<Rightarrow> (Inl x, w1)
           | (Inr None, w1) \<Rightarrow> (Inl TypeError, w1)
           | (Inr (Some r), w1) \<Rightarrow> (get_python_code (content r) FAILED_RESPONSE, w1)))"

text \<open>
  One round of the first loop: the template is read (a missing file raises outside the
  \<^verbatim>\<open>try\<close>), then the \<^verbatim>\<open>try\<close> block runs and its handler stores the canned
  response for any exception.
\<close>

definition run_task ::
  "env \<Rightarrow> kwargs \<Rightarrow> string \<Rightarrow> task \<Rightarrow> (string \<rightharpoonup> string) \<Rightarrow> world
    \<Rightarrow> (error + (string \<rightharpoonup> string)) \<times> world" where
  "run_task e kw task_id t code w =
     (case files e (prompt_template_path kw) of
        None \<Rightarrow> (Inl FileNotFoundError, w)
      | Some prompt_template \<Rightarrow>
          (case try_block e kw prompt_template t w of
             (Inr python_code, w1) \<Rightarrow> (Inr (code(task_id \<mapsto> python_code)), w1)
           | (Inl x, w1) \<Rightarrow> (Inr (code(task_id \<mapsto> FAILED_RESPONSE)), w1)))"

text \<open>
  The input dictionary is the list of its items in iteration order; a dictionary has no
  key twice.
\<close>

fun first_loop ::
  "env \<Rightarrow> kwargs \<Rightarrow> (string \<times> task) list \<Rightarrow> (string \<rightharpoonup> string) \<Rightarrow> world
    \<Rightarrow> (error + (string \<rightharpoonup> string)) \<times> world" where
  "first_loop e kw [] code w = (Inr code, w)"
| "first_loop e kw ((task_id, t) # rest) code w =
     (case run_task e kw task_id t code w of
        (Inl x, w1) \<Rightarrow> (Inl x, w1)
      | (Inr code1, w1) \<Rightarrow> first_loop e kw rest code1 w1)"

text \<open>The second loop assigns \<^verbatim>\<open>code[task_id]\<close> to the response field of every task.\<close>

fun second_loop ::
  "(string \<rightharpoonup> string) \<Rightarrow> (string \<times> task) list \<Rightarrow> world
    \<Rightarrow> (error + (string \<times> task) list) \<times> world" where
  "second_loop code [] w = (Inr [], w)"
| "second_loop code ((task_id, t) # rest) w =
     (case code task_id of
        None \<Rightarrow> (Inl KeyError, w)
      | Some v \<Rightarrow>
          (case second_loop code rest (w\<lparr>assigned := assigned w @ [task_id]\<rparr>) of
             (Inl x, w1) \<Rightarrow> (Inl x, w1)
           | (Inr rest1, w1) \<Rightarrow> (Inr ((task_id, t\<lparr>response := Some v\<rparr>) # rest1), w1)))"

definition run ::
  "env \<Rightarrow> kwargs \<Rightarrow> (string \<times> task) list \<Rightarrow> world \<Rightarrow> (error + (string \<times> task) list) \<times> world" where
  "run e kw input w =
     (case first_loop e kw input Map.empty w of
        (Inl x, w1) \<Rightarrow> (Inl x, w1)
      | (Inr code, w1) \<Rightarrow> second_loop code input w1)"

section \<open>Notions used in the statements\<close>

text \<open>\<open>occurs p s\<close>: the literal \<open>p\<close> stands somewhere in the text \<open>s\<close>.\<close>

fun occurs :: "string \<Rightarrow> string \<Rightarrow> bool" where
  "occurs p [] = (strip_prefix p [] \<noteq> None)"
| "occurs p (c # cs) = (strip_prefix p (c # cs) \<noteq> None \<or> occurs p cs)"

text \<open>
  An outcome of the inference call after which the loop goes on: an empty completion, or
  one of the two exceptions with a retrying handler.
\<close>

fun retryable :: "outcome \<Rightarrow> bool" where
  "retryable (Returns r) = (completion_tokens r = 0)"
| "retryable (Raises (NoContentGeneratedException m)) = True"
| "retryable (Raises (RateLimitError m)) = True"
| "retryable (Raises x) = False"

text \<open>The exception that the \<^verbatim>\<open>try\<close> body ends with at such an outcome.\<close>

fun raised :: "outcome \<Rightarrow> error" where
  "raised (Returns r) = NoContentGeneratedException (''completion tokens is 0, content='' @ content r)"
| "raised (Raises x) = x"

text \<open>
  The world after \<open>k\<close> failed attempts, each followed by its backoff, the first of them
  being attempt number \<open>attempt\<close>.
\<close>

fun retries :: "env \<Rightarrow> int \<Rightarrow> nat \<Rightarrow> world \<Rightarrow> world" where
  "retries e attempt 0 w = w"
| "retries e attempt (Suc k) w =
     retries e (attempt + 1) k (backoff e attempt (w\<lparr>calls := Suc (calls w)\<rparr>))"

text \<open>The jitter that the \<open>n\<close>-th draw of \<^verbatim>\<open>random.randint(1, 10)\<close> yields.\<close>

definition jitter_at :: "env \<Rightarrow> nat \<Rightarrow> int" where
  "jitter_at e n = 1 + int (random_source e n) mod 10"

text \<open>
  The surroundings \<open>e\<close> with the outputs of the generator from number \<open>n\<close> on replaced
  by the list \<open>rs\<close>.
\<close>

definition with_draws :: "env \<Rightarrow> nat \<Rightarrow> nat list \<Rightarrow> env" where
  "with_draws e n rs =
     e\<lparr>random_source := (\<lambda>m. if n \<le> m \<and> m < n + length rs then rs ! (m - n)
                              else random_source e m)\<rparr>"

text \<open>
  The string stored for a task by one round of the first loop, and the world in which the
  round of the \<open>i\<close>-th task starts.
\<close>

definition task_response :: "env \<Rightarrow> kwargs \<Rightarrow> string \<Rightarrow> task \<Rightarrow> world \<Rightarrow> string" where
  "task_response e kw prompt_template t w =
     (case fst (try_block e kw prompt_template t w) of
        Inr python_code \<Rightarrow> python_code
      | Inl x \<Rightarrow> FAILED_RESPONSE)"

fun world_before ::
  "env \<Rightarrow> kwargs \<Rightarrow> string \<Rightarrow> (string \<times> task) list \<Rightarrow> nat \<Rightarrow> world \<Rightarrow> world" where
  "world_before e kw prompt_template [] i w = w"
| "world_before e kw prompt_template ((task_id, t) # rest) 0 w = w"
| "world_before e kw prompt_template ((task_id, t) # rest) (Suc i) w =
     world_before e kw prompt_template rest i (snd (try_block e kw prompt_template t w))"

subsection \<open>A concrete surrounding\<close>

text \<open>
  An inference service that answers its calls from a list and throttles afterwards, a
  template file at the path of the entry point (or none), and two tasks.
\<close>

definition script :: "outcome list \<Rightarrow> nat \<Rightarrow> string \<Rightarrow> string \<Rightarrow> outcome" where
  "script outs n model prompt =
     (if n < length outs then outs ! n else Raises (RateLimitError ''throttled''))"

definition example_env :: "outcome list \<Rightarrow> string option \<Rightarrow> env" where
  "example_env outs template =
     \<lparr>completion = script outs,
      random_source = (\<lambda>n. 7 * n + 3),
      files = (\<lambda>path. if path = ''prompt_templates/nova.txt'' then template else None),
      format = (\<lambda>template question. Inr (template @ question))\<rparr>"

definition example_kwargs :: kwargs where
  "example_kwargs =
     \<lparr>model_name = ''bedrock/amazon.nova-lite-v1:0'',
      prompt_template_path = ''prompt_templates/nova.txt''\<rparr>"

definition fresh_world :: world where
  "fresh_world = \<lparr>calls = 0, draws = 0, slept = [], assigned = []\<rparr>"

text \<open>Ten calls that are throttled, each with a message of its own.\<close>

definition rate_limited_calls :: "outcome list" where
  "rate_limited_calls =
     map (\<lambda>c. Raises (RateLimitError (''throttled at call '' @ [c]))) ''0123456789''"

definition blocked :: model_response where
  "blocked = \<lparr>completion_tokens = 0, content = ''blocked by our content filters''\<rparr>"

definition answer :: model_response where
  "answer = \<lparr>completion_tokens = 12,
              content = ''```python'' @ nl @ ''print(1)'' @ nl @ ''```''\<rparr>"

definition example_tasks :: "(string \<times> task) list" where
  "example_tasks =
     [(''task_1'', \<lparr>description = ''Count the cows.'', response = None\<rparr>),
      (''task_2'', \<lparr>description = ''Print one.'', response = None\<rparr>)]"

section \<open>Properties of the matcher\<close>

declare findall.simps [simp del]

lemma strip_prefix_iff: "strip_prefix p s = Some r \<longleftrightarrow> s = p @ r"
  by (induction p s rule: strip_prefix.induct) auto

lemma strip_prefix_None_iff: "strip_prefix p s = None \<longleftrightarrow> (\<forall>r. s \<noteq> p @ r)"
  using strip_prefix_iff [of p s] by (cases "strip_prefix p s") auto

lemma occurs_iff: "occurs p s \<longleftrightarrow> (\<exists>a b. s = a @ p @ b)"
proof (induction s)
  case Nil
  then show ?case by (auto simp: strip_prefix_None_iff)
next
  case (Cons c cs)
  show ?case
  proof
    assume "occurs p (c # cs)"
    then consider "strip_prefix p (c # cs) \<noteq> None" | "occurs p cs" by auto
    then show "\<exists>a b. c # cs = a @ p @ b"
    proof cases
      case 1
      then obtain r where "c # cs = p @ r" by (auto simp: strip_prefix_iff)
      then have "c # cs = [] @ p @ r" by simp
      then show ?thesis by blast
    next
      case 2
      with Cons obtain a b where "cs = a @ p @ b" by auto
      then have "c # cs = (c # a) @ p @ b" by simp
      then show ?thesis by blast
    qed
  next
    assume "\<exists>a b. c # cs = a @ p @ b"
    then obtain a b where ab: "c # cs = a @ p @ b" by auto
    show "occurs p (c # cs)"
    proof (cases a)
      case Nil
      with ab have "strip_prefix p (c # cs) = Some b" by (simp add: strip_prefix_iff)
      then show ?thesis by simp
    next
      case (Cons x a')
      with ab have "cs = a' @ p @ b" by simp
      with Cons.IH show ?thesis by auto
    qed
  qed
qed

lemma findall_no_open: "\<not> occurs open_fence s \<Longrightarrow> findall s = []"
proof (induction s)
  case Nil
  then show ?case by (subst findall.simps) (simp add: match_here_def)
next
  case (Cons c cs)
  then show ?case by (subst findall.simps) (simp add: match_here_def)
qed

lemma strip_prefix_append:
  "length p \<le> length s \<Longrightarrow> strip_prefix p (s @ t) = map_option (\<lambda>r. r @ t) (strip_prefix p s)"
  by (induction p s rule: strip_prefix.induct) auto

lemma open_fence_nth: "k < 9 \<Longrightarrow> open_fence ! k \<noteq> CHR 0x0A"
proof -
  assume "k < 9"
  then have "k = 0 \<or> k = 1 \<or> k = 2 \<or> k = 3 \<or> k = 4 \<or> k = 5 \<or> k = 6 \<or> k = 7 \<or> k = 8"
    by arith
  then show ?thesis
    by (elim disjE) (simp_all add: open_fence_def nl_def)
qed

lemma open_fence_length: "length open_fence = 10"
  by (simp add: open_fence_def nl_def)

lemma open_fence_last: "open_fence ! 9 = CHR 0x0A"
  by (simp add: open_fence_def nl_def)

lemma open_fence_no_overlap:
  assumes "strip_prefix open_fence (s @ open_fence @ rest) = Some r" and "s \<noteq> []"
  shows "10 \<le> length s"
proof (rule ccontr)
  assume "\<not> 10 \<le> length s"
  then have short: "length s < 10" by simp
  from assms(2) have pos: "0 < length s" by simp
  from assms(1) have eq: "s @ open_fence @ rest = open_fence @ r"
    by (simp add: strip_prefix_iff)
  have "(s @ open_fence @ rest) ! 9 = open_fence ! (9 - length s)"
  proof -
    have "9 - length s < 10" by arith
    then show ?thesis
      using short pos by (simp add: nth_append open_fence_length)
  qed
  moreover have "(open_fence @ r) ! 9 = CHR 0x0A"
    by (simp add: nth_append open_fence_length open_fence_last)
  ultimately have "open_fence ! (9 - length s) = CHR 0x0A"
    using eq by simp
  moreover have "9 - length s < 9" using pos by arith
  ultimately show False using open_fence_nth by blast
qed

lemma strip_open_before:
  assumes "\<not> occurs open_fence (c # pre)"
  shows "strip_prefix open_fence (c # pre @ open_fence @ rest) = None"
proof (cases "strip_prefix open_fence (c # pre @ open_fence @ rest)")
  case None
  then show ?thesis .
next
  case (Some r)
  then have "strip_prefix open_fence ((c # pre) @ open_fence @ rest) = Some r" by simp
  then have "10 \<le> length (c # pre)" by (rule open_fence_no_overlap) simp
  then have "strip_prefix open_fence ((c # pre) @ open_fence @ rest)
      = map_option (\<lambda>r. r @ open_fence @ rest) (strip_prefix open_fence (c # pre))"
    by (intro strip_prefix_append) (simp add: open_fence_length)
  moreover from assms have "strip_prefix open_fence (c # pre) = None" by simp
  ultimately show ?thesis by simp
qed

lemma findall_skip:
  "\<not> occurs open_fence pre \<Longrightarrow> findall (pre @ open_fence @ rest) = findall (open_fence @ rest)"
proof (induction pre)
  case Nil
  then show ?case by simp
next
  case (Cons c pre)
  then have no: "\<not> occurs open_fence pre" by simp
  have "match_here (c # pre @ open_fence @ rest) = None"
    using strip_open_before [OF Cons.prems] by (simp add: match_here_def)
  then have "findall ((c # pre) @ open_fence @ rest) = findall (pre @ open_fence @ rest)"
    by (subst findall.simps) simp
  with Cons.IH [OF no] show ?case by simp
qed

lemma lazy_until_first:
  "\<not> occurs p (g @ butlast p) \<Longrightarrow> p \<noteq> [] \<Longrightarrow> lazy_until p (g @ p @ r) = Some (g, r)"
proof (induction g)
  case Nil
  have "strip_prefix p (p @ r) = Some r" by (simp add: strip_prefix_iff)
  then show ?case by (cases "p @ r") auto
next
  case (Cons c g)
  from Cons.prems have a: "strip_prefix p (c # g @ butlast p) = None"
    and b: "\<not> occurs p (g @ butlast p)" by auto
  have len: "length p \<le> length (c # g @ butlast p)" by simp
  have "butlast p @ [last p] = p" using Cons.prems(2) by simp
  then have "g @ butlast p @ [last p] @ r = g @ p @ r" by (metis append_assoc)
  then have e: "c # g @ p @ r = (c # g @ butlast p) @ ([last p] @ r)" by simp
  have "strip_prefix p (c # g @ p @ r) = strip_prefix p ((c # g @ butlast p) @ ([last p] @ r))"
    by (simp only: e)
  also have "\<dots> = map_option (\<lambda>x. x @ ([last p] @ r)) (strip_prefix p (c # g @ butlast p))"
    using len by (rule strip_prefix_append)
  also have "\<dots> = None" by (simp only: a option.map)
  finally have "strip_prefix p (c # g @ p @ r) = None" .
  with Cons.IH [OF b Cons.prems(2)] show ?case by simp
qed

lemma close_fence_first:
  assumes "\<not> occurs close_fence body" and "body = [] \<or> last body \<noteq> CHR 0x60"
  shows "\<not> occurs close_fence (body @ butlast close_fence)"
proof
  assume "occurs close_fence (body @ butlast close_fence)"
  then obtain a b where ab: "body @ ''``'' = a @ ''```'' @ b"
    by (auto simp: occurs_iff close_fence_def)
  show False
  proof (cases b rule: rev_cases)
    case Nil
    with ab have "body = a @ ''`''" by simp
    with assms(2) show False by simp
  next
    case (snoc b1 x)
    note b_snoc = this
    show False
    proof (cases b1 rule: rev_cases)
      case Nil
      with ab b_snoc have "body = a @ ''``''" by simp
      with assms(2) show False by simp
    next
      case (snoc b2 y)
      with ab b_snoc have "body = a @ ''```'' @ b2" by simp
      then have "occurs close_fence body" by (auto simp: occurs_iff close_fence_def)
      with assms(1) show False by simp
    qed
  qed
qed

lemma findall_first_block:
  assumes "\<not> occurs open_fence pre" and "\<not> occurs close_fence body"
    and "body = [] \<or> last body \<noteq> CHR 0x60"
  shows "findall (pre @ open_fence @ body @ close_fence @ post) = body # findall post"
proof -
  have "lazy_until close_fence (body @ close_fence @ post) = Some (body, post)"
    using close_fence_first [OF assms(2,3)] by (intro lazy_until_first) (simp_all add: close_fence_def)
  moreover have "strip_prefix open_fence (open_fence @ body @ close_fence @ post)
      = Some (body @ close_fence @ post)"
    by (simp add: strip_prefix_iff)
  ultimately have "match_here (open_fence @ body @ close_fence @ post) = Some (body, post)"
    by (simp add: match_here_def)
  then have "findall (open_fence @ body @ close_fence @ post) = body # findall post"
    by (subst findall.simps) simp
  with findall_skip [OF assms(1)] show ?thesis by simp
qed

section \<open>Properties of the retry loop\<close>

declare retry_loop.simps [simp del]

lemma backoff_eq:
  "backoff e attempt w =
     w\<lparr>draws := Suc (draws w), slept := slept w @ [retry_delay * (attempt + 1) + jitter_at e (draws w)]\<rparr>"
  by (simp add: backoff_def randint_def sleep_def jitter_at_def)

lemma try_completion_retryable:
  "retryable (completion e (calls w) model prompt) \<Longrightarrow>
   try_completion e model prompt w
     = (Inl (raised (completion e (calls w) model prompt)), w\<lparr>calls := Suc (calls w)\<rparr>)"
  by (cases "completion e (calls w) model prompt")
     (auto simp: try_completion_def call_completion_def)

lemma raised_retryable_cases:
  "retryable out \<Longrightarrow> (\<exists>m. raised out = NoContentGeneratedException m) \<or> (\<exists>m. raised out = RateLimitError m)"
  by (induction out rule: retryable.induct) auto

lemma retry_loop_step:
  assumes "attempt < max_retries - 1" and "retryable (completion e (calls w) model prompt)"
  shows "retry_loop e model prompt attempt w
     = retry_loop e model prompt (attempt + 1) (backoff e attempt (w\<lparr>calls := Suc (calls w)\<rparr>))"
proof -
  from assms(1) have lt: "attempt < max_retries" by simp
  from raised_retryable_cases [OF assms(2)] show ?thesis
    by (subst retry_loop.simps)
       (auto simp: try_completion_retryable [OF assms(2)] lt assms(1))
qed

lemma retry_loop_exhausted:
  assumes "attempt = max_retries - 1" and "retryable (completion e (calls w) model prompt)"
  shows "retry_loop e model prompt attempt w
     = (Inl (raised (completion e (calls w) model prompt)), w\<lparr>calls := Suc (calls w)\<rparr>)"
proof -
  from assms(1) have lt: "attempt < max_retries" "\<not> attempt < max_retries - 1" by simp_all
  from raised_retryable_cases [OF assms(2)] show ?thesis
    by (subst retry_loop.simps)
       (auto simp: try_completion_retryable [OF assms(2)] lt)
qed

lemma retry_loop_success:
  assumes "attempt < max_retries" and "completion e (calls w) model prompt = Returns r"
    and "0 < completion_tokens r"
  shows "retry_loop e model prompt attempt w = (Inr (Some r), w\<lparr>calls := Suc (calls w)\<rparr>)"
  using assms
  by (subst retry_loop.simps) (simp add: try_completion_def call_completion_def)

lemma retry_loop_fatal:
  assumes "attempt < max_retries" and "completion e (calls w) model prompt = Raises x"
    and "\<not> retryable (Raises x)"
  shows "retry_loop e model prompt attempt w = (Inl x, w\<lparr>calls := Suc (calls w)\<rparr>)"
  using assms
  by (subst retry_loop.simps) (cases x; simp add: try_completion_def call_completion_def)

lemma retries_calls [simp]: "calls (retries e a k w) = calls w + k"
  by (induction k arbitrary: a w) (simp_all add: backoff_eq)

lemma retries_draws [simp]: "draws (retries e a k w) = draws w + k"
  by (induction k arbitrary: a w) (simp_all add: backoff_eq)

lemma retries_assigned [simp]: "assigned (retries e a k w) = assigned w"
  by (induction k arbitrary: a w) (simp_all add: backoff_eq)

lemma retries_slept:
  "slept (retries e a k w)
     = slept w @ map (\<lambda>j. retry_delay * (a + int j + 1) + jitter_at e (draws w + j)) [0..<k]"
proof (induction k arbitrary: a w)
  case 0
  then show ?case by simp
next
  case (Suc k)
  have "map (\<lambda>j. retry_delay * (a + int j + 1) + jitter_at e (draws w + j)) [0..<Suc k]
      = (retry_delay * (a + 1) + jitter_at e (draws w))
        # map (\<lambda>j. retry_delay * (a + 1 + int j + 1) + jitter_at e (Suc (draws w) + j)) [0..<k]"
    by (simp only: upt_conv_Cons [of 0 "Suc k"] map_Suc_upt [symmetric]) (simp add: algebra_simps)
  then show ?case
    by (simp add: Suc.IH backoff_eq del: upt_Suc)
qed

lemma retry_loop_skip:
  assumes "attempt + int k < max_retries"
    and "\<forall>j<k. retryable (completion e (calls w + j) model prompt)"
  shows "retry_loop e model prompt attempt w
     = retry_loop e model prompt (attempt + int k) (retries e attempt k w)"
  using assms
proof (induction k arbitrary: attempt w)
  case 0
  then show ?case by simp
next
  case (Suc k)
  from Suc.prems(1) have a: "attempt < max_retries - 1" by simp
  from Suc.prems(2) have b: "retryable (completion e (calls w) model prompt)" by auto
  let ?w = "backoff e attempt (w\<lparr>calls := Suc (calls w)\<rparr>)"
  have c: "calls ?w = Suc (calls w)" by (simp add: backoff_eq)
  have "\<forall>j<k. retryable (completion e (calls ?w + j) model prompt)"
    using Suc.prems(2) c by auto
  moreover have "attempt + 1 + int k < max_retries" using Suc.prems(1) by simp
  ultimately have "retry_loop e model prompt (attempt + 1) ?w
      = retry_loop e model prompt (attempt + 1 + int k) (retries e (attempt + 1) k ?w)"
    by (rule Suc.IH [rotated])
  with retry_loop_step [OF a b] show ?case by (simp add: algebra_simps)
qed

lemma jitter_at_range: "1 \<le> jitter_at e n \<and> jitter_at e n \<le> 10"
  by (simp add: jitter_at_def)

lemma retry_loop_effects:
  "(\<exists>ds. slept (snd (retry_loop e model prompt attempt w)) = slept w @ ds)
   \<and> calls w \<le> calls (snd (retry_loop e model prompt attempt w))
   \<and> (attempt < max_retries \<longrightarrow> Suc (calls w) \<le> calls (snd (retry_loop e model prompt attempt w)))"
proof (induction e model prompt attempt w rule: retry_loop.induct)
  case (1 e model prompt attempt w)
  obtain res w1 where tc: "try_completion e model prompt w = (res, w1)"
    by (cases "try_completion e model prompt w")
  then have w1: "slept w1 = slept w" "calls w1 = Suc (calls w)"
    by (auto simp: try_completion_def call_completion_def split: outcome.splits if_splits)
  show ?case
  proof (cases "attempt < max_retries")
    case False
    then show ?thesis by (subst (1 2 3) retry_loop.simps) simp
  next
    case True
    show ?thesis
    proof (cases res)
      case (Inr r)
      with True tc w1 show ?thesis by (subst (1 2 3) retry_loop.simps) simp
    next
      case (Inl x)
      show ?thesis
      proof (cases "attempt < max_retries - 1")
        case False
        with True tc w1 Inl show ?thesis
          by (subst (1 2 3) retry_loop.simps) (cases x; simp)
      next
        case less: True
        have step: "(\<exists>ds. slept (snd (retry_loop e model prompt (attempt + 1) (backoff e attempt w1)))
              = slept (backoff e attempt w1) @ ds)
            \<and> calls (backoff e attempt w1)
                \<le> calls (snd (retry_loop e model prompt (attempt + 1) (backoff e attempt w1)))
          \<Longrightarrow> retry_loop e model prompt attempt w
                = retry_loop e model prompt (attempt + 1) (backoff e attempt w1)
          \<Longrightarrow> ?thesis"
          using w1 by (auto simp: backoff_eq)
        show ?thesis
        proof (cases x)
          case (NoContentGeneratedException m)
          have eq: "retry_loop e model prompt attempt w
              = retry_loop e model prompt (attempt + 1) (backoff e attempt w1)"
            using True tc Inl less NoContentGeneratedException by (subst retry_loop.simps) simp
          from "1.IH"(1) [OF True tc [symmetric] Inl NoContentGeneratedException less] eq
          show ?thesis by (intro step) simp_all
        next
          case (RateLimitError m)
          have eq: "retry_loop e model prompt attempt w
              = retry_loop e model prompt (attempt + 1) (backoff e attempt w1)"
            using True tc Inl less RateLimitError by (subst retry_loop.simps) simp
          from "1.IH"(2) [OF True tc [symmetric] Inl RateLimitError less] eq
          show ?thesis by (intro step) simp_all
        qed (use True tc w1 Inl in \<open>subst (1 2 3) retry_loop.simps, simp\<close>)+
      qed
    qed
  qed
qed


lemma process_task_delay_at:
  assumes "int i < max_retries - 1"
    and "\<forall>j\<le>i. retryable (completion e (calls w + j) model prompt)"
  shows "length (slept w) + i < length (slept (snd (process_task e model prompt w)))"
    and "slept (snd (process_task e model prompt w)) ! (length (slept w) + i)
           = retry_delay * (int i + 1) + jitter_at e (draws w + i)"
    and "calls w + i + 2 \<le> calls (snd (process_task e model prompt w))"
proof -
  let ?w = "retries e 0 (Suc i) w"
  let ?delays = "map (\<lambda>j. retry_delay * (0 + int j + 1) + jitter_at e (draws w + j)) [0..<Suc i]"
  have next_attempt: "0 + int (Suc i) < max_retries" using assms(1) by simp
  have "\<forall>j<Suc i. retryable (completion e (calls w + j) model prompt)"
    using assms(2) by (simp add: less_Suc_eq_le)
  with next_attempt have eq: "process_task e model prompt w
      = retry_loop e model prompt (0 + int (Suc i)) ?w"
    unfolding process_task_def by (rule retry_loop_skip)
  from retry_loop_effects [of e model prompt "0 + int (Suc i)" ?w] next_attempt
  obtain ds where ds: "slept (snd (process_task e model prompt w)) = slept ?w @ ds"
    and c: "Suc (calls ?w) \<le> calls (snd (process_task e model prompt w))"
    unfolding eq by blast
  have sl: "slept (snd (process_task e model prompt w)) = slept w @ ?delays @ ds"
    unfolding ds by (simp only: retries_slept append_assoc)
  have len: "length ?delays = Suc i" by simp
  show "length (slept w) + i < length (slept (snd (process_task e model prompt w)))"
    unfolding sl by (simp del: upt_Suc)
  have "(slept w @ ?delays @ ds) ! (length (slept w) + i) = ?delays ! i"
    using len by (simp only: nth_append_length_plus nth_append) simp
  also have "\<dots> = retry_delay * (int i + 1) + jitter_at e (draws w + i)"
  proof -
    have "i < length [0..<Suc i]" by simp
    then have "?delays ! i
        = retry_delay * (0 + int ([0..<Suc i] ! i) + 1) + jitter_at e (draws w + [0..<Suc i] ! i)"
      by (rule nth_map)
    moreover have "[0..<Suc i] ! i = i"
      using nth_upt [of 0 i "Suc i"] by simp
    ultimately show ?thesis by simp
  qed
  finally show "slept (snd (process_task e model prompt w)) ! (length (slept w) + i)
           = retry_delay * (int i + 1) + jitter_at e (draws w + i)"
    unfolding sl .
  have "calls ?w = calls w + Suc i" by (rule retries_calls)
  with c show "calls w + i + 2 \<le> calls (snd (process_task e model prompt w))"
    by (simp del: retries.simps)
qed


lemma delay_with_draws:
  assumes "int i < max_retries - 1"
    and "\<forall>j\<le>i. retryable (completion e (calls w + j) model prompt)"
    and "length rs = Suc i" and "k \<le> i"
  shows "slept (snd (process_task (with_draws e (draws w) rs) model prompt w)) ! (length (slept w) + k)
     = 60 * (int k + 1) + (1 + int (rs ! k) mod 10)"
proof -
  let ?e = "with_draws e (draws w) rs"
  have a: "int k < max_retries - 1" using assms(1,4) by simp
  have b: "\<forall>j\<le>k. retryable (completion ?e (calls w + j) model prompt)"
    using assms(2,4) by (simp add: with_draws_def)
  have "jitter_at ?e (draws w + k) = 1 + int (rs ! k) mod 10"
    using assms(3,4) by (simp add: jitter_at_def with_draws_def)
  with process_task_delay_at(2) [OF a b] show ?thesis
    by (simp add: retry_delay_def)
qed

lemma digits_of_jitters:
  assumes "length js = Suc i" and "\<forall>v\<in>set js. (1::int) \<le> v \<and> v \<le> 10"
  shows "\<exists>!rs. length rs = Suc i \<and> (\<forall>r\<in>set rs. r < (10::nat))
           \<and> (\<forall>k\<le>i. 1 + int (rs ! k) mod 10 = js ! k)"
proof (rule ex1I [of _ "map (\<lambda>v. nat (v - 1)) js"], intro conjI)
  show "length (map (\<lambda>v. nat (v - 1)) js) = Suc i" using assms(1) by simp
  show "\<forall>r\<in>set (map (\<lambda>v. nat (v - 1)) js). r < 10" using assms(2) by auto
  show "\<forall>k\<le>i. 1 + int (map (\<lambda>v. nat (v - 1)) js ! k) mod 10 = js ! k"
  proof (intro allI impI)
    fix k assume "k \<le> i"
    then have k: "k < length js" using assms(1) by simp
    then have "js ! k \<in> set js" by simp
    with assms(2) have "1 \<le> js ! k" "js ! k \<le> 10" by auto
    then show "1 + int (map (\<lambda>v. nat (v - 1)) js ! k) mod 10 = js ! k"
      using k by simp
  qed
next
  fix rs
  assume rs: "length rs = Suc i \<and> (\<forall>r\<in>set rs. r < (10::nat))
      \<and> (\<forall>k\<le>i. 1 + int (rs ! k) mod 10 = js ! k)"
  show "rs = map (\<lambda>v. nat (v - 1)) js"
  proof (rule nth_equalityI)
    show "length rs = length (map (\<lambda>v. nat (v - 1)) js)" using rs assms(1) by simp
  next
    fix k assume "k < length rs"
    with rs have k: "k \<le> i" "k < length js" "rs ! k \<in> set rs" using assms(1) by simp_all
    with rs have "rs ! k < 10" "1 + int (rs ! k) mod 10 = js ! k" by auto
    then have "js ! k = 1 + int (rs ! k)" by simp
    then show "rs ! k = map (\<lambda>v. nat (v - 1)) js ! k" using k(2) by simp
  qed
qed

lemma process_task_succeeds_at:
  assumes "int k < max_retries"
    and "\<forall>j<k. retryable (completion e (calls w + j) model prompt)"
    and "completion e (calls w + k) model prompt = Returns r"
    and "0 < completion_tokens r"
  shows "process_task e model prompt w
     = (Inr (Some r), (retries e 0 k w)\<lparr>calls := Suc (calls w + k)\<rparr>)"
proof -
  have "retry_loop e model prompt 0 w = retry_loop e model prompt (0 + int k) (retries e 0 k w)"
    using assms(1,2) by (intro retry_loop_skip) simp_all
  also have "\<dots> = (Inr (Some r), (retries e 0 k w)\<lparr>calls := Suc (calls (retries e 0 k w))\<rparr>)"
    using assms(1,3,4) by (intro retry_loop_success) simp_all
  finally show ?thesis by (simp add: process_task_def)
qed

lemma process_task_fails_at:
  assumes "int k < max_retries"
    and "\<forall>j<k. retryable (completion e (calls w + j) model prompt)"
    and "completion e (calls w + k) model prompt = Raises x"
    and "\<not> retryable (Raises x)"
  shows "process_task e model prompt w
     = (Inl x, (retries e 0 k w)\<lparr>calls := Suc (calls w + k)\<rparr>)"
proof -
  have "retry_loop e model prompt 0 w = retry_loop e model prompt (0 + int k) (retries e 0 k w)"
    using assms(1,2) by (intro retry_loop_skip) simp_all
  also have "\<dots> = (Inl x, (retries e 0 k w)\<lparr>calls := Suc (calls (retries e 0 k w))\<rparr>)"
    using assms(1,3,4) by (intro retry_loop_fatal) simp_all
  finally show ?thesis by (simp add: process_task_def)
qed

lemma process_task_exhausted:
  assumes "\<forall>j<10. retryable (completion e (calls w + j) model prompt)"
  shows "process_task e model prompt w
     = (Inl (raised (completion e (calls w + 9) model prompt)),
        (retries e 0 9 w)\<lparr>calls := calls w + 10\<rparr>)"
proof -
  have "retry_loop e model prompt 0 w = retry_loop e model prompt (0 + int 9) (retries e 0 9 w)"
    using assms by (intro retry_loop_skip) (simp_all add: max_retries_def)
  also have "\<dots> = (Inl (raised (completion e (calls (retries e 0 9 w)) model prompt)),
       (retries e 0 9 w)\<lparr>calls := Suc (calls (retries e 0 9 w))\<rparr>)"
    using assms by (intro retry_loop_exhausted) (simp_all add: max_retries_def)
  finally show ?thesis by (simp add: process_task_def)
qed

lemma first_not_retryable:
  fixes P :: "nat \<Rightarrow> bool"
  assumes "\<not> (\<forall>j<n. P j)"
  shows "\<exists>k<n. \<not> P k \<and> (\<forall>j<k. P j)"
proof -
  from assms obtain j where j: "j < n" "\<not> P j" by auto
  define k where "k = (LEAST i. \<not> P i)"
  have "\<not> P k" unfolding k_def using j(2) by (rule LeastI [of "\<lambda>i. \<not> P i"])
  moreover have "k \<le> j" unfolding k_def using j(2) by (rule Least_le [of "\<lambda>i. \<not> P i"])
  moreover have "\<forall>i<k. P i" unfolding k_def using not_less_Least [of _ "\<lambda>i. \<not> P i"] by blast
  ultimately have "k < n \<and> \<not> P k \<and> (\<forall>i<k. P i)" using j(1) by simp
  then show ?thesis by blast
qed

lemma process_task_success_D:
  assumes ok: "fst (process_task e model prompt w) = Inr (Some r)"
  shows "\<exists>k. int k < max_retries
      \<and> (\<forall>j<k. retryable (completion e (calls w + j) model prompt))
      \<and> completion e (calls w + k) model prompt = Returns r \<and> 0 < completion_tokens r"
proof -
  let ?P = "\<lambda>j. retryable (completion e (calls w + j) model prompt)"
  have "\<not> (\<forall>j<10. ?P j)"
  proof
    assume "\<forall>j<10. ?P j"
    from process_task_exhausted [OF this] ok show False by simp
  qed
  from first_not_retryable [of 10 ?P, OF this]
  obtain k where k: "k < 10" "\<not> ?P k" "\<forall>j<k. ?P j" by blast
  from k(1) have km: "int k < max_retries" by (simp add: max_retries_def)
  show ?thesis
  proof (cases "completion e (calls w + k) model prompt")
    case (Returns r')
    with k(2) have pos: "0 < completion_tokens r'" by simp
    from process_task_succeeds_at [OF km k(3) Returns pos] ok have "r' = r" by simp
    with Returns pos km k(3) show ?thesis by blast
  next
    case (Raises x)
    with k(2) have "\<not> retryable (Raises x)" by simp
    from process_task_fails_at [OF km k(3) Raises this] ok show ?thesis by simp
  qed
qed

lemma sum_list_backoff:
  "(\<Sum>i<k. retry_delay * (int i + 1))
     \<le> sum_list (map (\<lambda>i. retry_delay * (int i + 1) + jitter_at e (n + i)) [0..<k])"
proof -
  have "sum_list (map (\<lambda>i. retry_delay * (int i + 1) + jitter_at e (n + i)) [0..<k])
      = (\<Sum>i<k. retry_delay * (int i + 1) + jitter_at e (n + i))"
    by (simp add: interv_sum_list_conv_sum_set_nat atLeast0LessThan)
  moreover have "(\<Sum>i<k. retry_delay * (int i + 1))
      \<le> (\<Sum>i<k. retry_delay * (int i + 1) + jitter_at e (n + i))"
    using jitter_at_range [of e] by (intro sum_mono) (simp add: order_trans [OF zero_le_one])
  ultimately show ?thesis by simp
qed

section \<open>Properties of the run\<close>

lemma retry_loop_assigned:
  "assigned (snd (retry_loop e model prompt attempt w)) = assigned w"
proof (induction e model prompt attempt w rule: retry_loop.induct)
  case (1 e model prompt attempt w)
  obtain res w1 where tc: "try_completion e model prompt w = (res, w1)"
    by (cases "try_completion e model prompt w")
  then have w1: "assigned w1 = assigned w"
    by (auto simp: try_completion_def call_completion_def split: outcome.splits if_splits)
  show ?case
  proof (cases "attempt < max_retries")
    case False
    then show ?thesis by (subst retry_loop.simps) simp
  next
    case True
    show ?thesis
    proof (cases res)
      case (Inr r)
      with True tc w1 show ?thesis by (subst retry_loop.simps) simp
    next
      case (Inl x)
      show ?thesis
      proof (cases "attempt < max_retries - 1")
        case False
        with True tc w1 Inl show ?thesis
          by (subst retry_loop.simps) (cases x; simp)
      next
        case less: True
        show ?thesis
        proof (cases x)
          case (NoContentGeneratedException m)
          with "1.IH"(1) [OF True tc [symmetric] Inl NoContentGeneratedException less]
            True tc w1 Inl less show ?thesis
            by (subst retry_loop.simps) (simp add: backoff_eq)
        next
          case (RateLimitError m)
          with "1.IH"(2) [OF True tc [symmetric] Inl RateLimitError less]
            True tc w1 Inl less show ?thesis
            by (subst retry_loop.simps) (simp add: backoff_eq)
        qed (use True tc w1 Inl in \<open>subst retry_loop.simps, simp\<close>)+
      qed
    qed
  qed
qed

lemma try_block_assigned: "assigned (snd (try_block e kw tpl t w)) = assigned w"
proof (cases "format e tpl (description t)")
  case (Inl x)
  then show ?thesis by (simp add: try_block_def)
next
  case (Inr p)
  obtain res w1 where pt: "process_task e (model_name kw) p w = (res, w1)"
    by (cases "process_task e (model_name kw) p w")
  with retry_loop_assigned [of e "model_name kw" p 0 w] have "assigned w1 = assigned w"
    by (simp add: process_task_def)
  with Inr pt show ?thesis
    by (simp add: try_block_def split: sum.splits option.splits)
qed

lemma run_task_present:
  assumes "files e (prompt_template_path kw) = Some tpl"
  shows "run_task e kw task_id t code w
     = (Inr (code(task_id \<mapsto> task_response e kw tpl t w)), snd (try_block e kw tpl t w))"
  using assms
  by (cases "try_block e kw tpl t w") (simp add: run_task_def task_response_def split: sum.splits)

lemma first_loop_present:
  assumes "files e (prompt_template_path kw) = Some tpl"
  shows "\<exists>code' w'. first_loop e kw input code w = (Inr code', w')
     \<and> assigned w' = assigned w
     \<and> (\<forall>k. k \<notin> fst ` set input \<longrightarrow> code' k = code k)
     \<and> (\<forall>k \<in> fst ` set input. code' k \<noteq> None)
     \<and> (distinct (map fst input) \<longrightarrow>
          (\<forall>i<length input. code' (fst (input ! i))
             = Some (task_response e kw tpl (snd (input ! i)) (world_before e kw tpl input i w))))"
proof (induction input arbitrary: code w)
  case Nil
  then show ?case by simp
next
  case (Cons a rest)
  obtain task_id t where a: "a = (task_id, t)" by (cases a)
  let ?code = "code(task_id \<mapsto> task_response e kw tpl t w)"
  let ?w = "snd (try_block e kw tpl t w)"
  from Cons.IH [of ?code ?w] obtain code' w' where
    fl: "first_loop e kw rest ?code ?w = (Inr code', w')"
    and as: "assigned w' = assigned ?w"
    and out: "\<forall>k. k \<notin> fst ` set rest \<longrightarrow> code' k = ?code k"
    and dom: "\<forall>k \<in> fst ` set rest. code' k \<noteq> None"
    and val: "distinct (map fst rest) \<longrightarrow>
          (\<forall>i<length rest. code' (fst (rest ! i))
             = Some (task_response e kw tpl (snd (rest ! i)) (world_before e kw tpl rest i ?w)))"
    by blast
  have 1: "first_loop e kw (a # rest) code w = (Inr code', w')"
    using fl by (simp add: a run_task_present [OF assms])
  have 2: "assigned w' = assigned w"
    using as by (simp add: try_block_assigned)
  have 3: "\<forall>k. k \<notin> fst ` set (a # rest) \<longrightarrow> code' k = code k"
    using out by (auto simp: a)
  have 4: "\<forall>k \<in> fst ` set (a # rest). code' k \<noteq> None"
  proof
    fix k assume "k \<in> fst ` set (a # rest)"
    then consider "k \<in> fst ` set rest" | "k = task_id" "k \<notin> fst ` set rest"
      by (auto simp: a)
    then show "code' k \<noteq> None"
    proof cases
      case 1
      with dom show ?thesis by blast
    next
      case 2
      with out show ?thesis by simp
    qed
  qed
  have 5: "distinct (map fst (a # rest)) \<longrightarrow>
          (\<forall>i<length (a # rest). code' (fst ((a # rest) ! i))
             = Some (task_response e kw tpl (snd ((a # rest) ! i))
                  (world_before e kw tpl (a # rest) i w)))"
  proof (intro impI allI)
    fix i
    assume d: "distinct (map fst (a # rest))" and i: "i < length (a # rest)"
    from d have notin: "task_id \<notin> fst ` set rest" and d': "distinct (map fst rest)"
      by (simp_all add: a)
    show "code' (fst ((a # rest) ! i))
        = Some (task_response e kw tpl (snd ((a # rest) ! i))
             (world_before e kw tpl (a # rest) i w))"
    proof (cases i)
      case 0
      with out notin show ?thesis by (simp add: a)
    next
      case (Suc j)
      with i val d' show ?thesis by (simp add: a)
    qed
  qed
  from 1 2 3 4 5 show ?case by blast
qed

lemma second_loop_total:
  assumes "\<forall>k \<in> fst ` set input. code k \<noteq> None"
  shows "second_loop code input w
     = (Inr (map (\<lambda>(task_id, t). (task_id, t\<lparr>response := code task_id\<rparr>)) input),
        w\<lparr>assigned := assigned w @ map fst input\<rparr>)"
  using assms
proof (induction input arbitrary: w)
  case Nil
  then show ?case by simp
next
  case (Cons a rest)
  obtain task_id t where a: "a = (task_id, t)" by (cases a)
  from Cons.prems obtain v where v: "code task_id = Some v" by (auto simp: a)
  from Cons.prems have "\<forall>k \<in> fst ` set rest. code k \<noteq> None" by simp
  from Cons.IH [OF this, of "w\<lparr>assigned := assigned w @ [task_id]\<rparr>"] v
  show ?case by (simp add: a)
qed

lemma run_present:
  assumes "files e (prompt_template_path kw) = Some tpl" and "distinct (map fst input)"
  shows "\<exists>out w'. run e kw input w = (Inr out, w')
     \<and> map fst out = map fst input
     \<and> assigned w' = assigned w @ map fst input
     \<and> (\<forall>i<length input.
           description (snd (out ! i)) = description (snd (input ! i))
           \<and> response (snd (out ! i))
               = Some (task_response e kw tpl (snd (input ! i)) (world_before e kw tpl input i w)))"
proof -
  from first_loop_present [OF assms(1), of input Map.empty w] assms(2)
  obtain code' w1 where
    fl: "first_loop e kw input Map.empty w = (Inr code', w1)"
    and as: "assigned w1 = assigned w"
    and dom: "\<forall>k \<in> fst ` set input. code' k \<noteq> None"
    and val: "\<forall>i<length input. code' (fst (input ! i))
             = Some (task_response e kw tpl (snd (input ! i)) (world_before e kw tpl input i w))"
    by blast
  let ?out = "map (\<lambda>(task_id, t). (task_id, t\<lparr>response := code' task_id\<rparr>)) input"
  have r: "run e kw input w = (Inr ?out, w1\<lparr>assigned := assigned w1 @ map fst input\<rparr>)"
    by (simp add: run_def fl second_loop_total [OF dom])
  have "map fst ?out = map fst input" by (induction input) auto
  moreover have "\<forall>i<length input.
           description (snd (?out ! i)) = description (snd (input ! i))
           \<and> response (snd (?out ! i))
               = Some (task_response e kw tpl (snd (input ! i)) (world_before e kw tpl input i w))"
    using val by (simp add: case_prod_beta)
  ultimately show ?thesis using r as by simp
qed

lemma try_block_code:
  assumes "fst (try_block e kw tpl t w) = Inr c"
  shows "\<exists>prompt r ms. format e tpl (description t) = Inr prompt
     \<and> fst (process_task e (model_name kw) prompt w) = Inr (Some r)
     \<and> 0 < completion_tokens r
     \<and> findall (content r) = c # ms"
proof (cases "format e tpl (description t)")
  case (Inl x)
  with assms show ?thesis by (simp add: try_block_def)
next
  case (Inr prompt)
  obtain res w1 where pt: "process_task e (model_name kw) prompt w = (res, w1)"
    by (cases "process_task e (model_name kw) prompt w")
  with assms Inr obtain r where r: "res = Inr (Some r)"
    and g: "get_python_code (content r) FAILED_RESPONSE = Inr c"
    by (auto simp: try_block_def split: sum.splits option.splits)
  from g obtain ms where "findall (content r) = c # ms"
    by (auto simp: get_python_code_def re_findall_def split: list.splits)
  moreover from pt r have ok: "fst (process_task e (model_name kw) prompt w) = Inr (Some r)"
    by simp
  moreover from process_task_success_D [OF ok] have "0 < completion_tokens r" by blast
  ultimately show ?thesis using Inr by blast
qed

lemma run_example:
  "run (example_env (replicate 10 (Returns blocked) @ [Returns answer]) (Some ''Solve: ''))
      example_kwargs example_tasks fresh_world
   = (Inr [(''task_1'', \<lparr>description = ''Count the cows.'', response = Some FAILED_RESPONSE\<rparr>),
           (''task_2'', \<lparr>description = ''Print one.'', response = Some (''print(1)'' @ nl)\<rparr>)],
      \<lparr>calls = 11, draws = 9, slept = [64, 121, 188, 245, 302, 369, 426, 483, 550],
         assigned = [''task_1'', ''task_2'']\<rparr>)"
  by code_simp

section \<open>The extractor\<close>

text \<open>
  C1. The claim: on a text without a fenced code block the extractor never raises and
  returns the fallback. The code does not: \<^verbatim>\<open>re.findall\<close> returns the empty list,
  which is not \<^verbatim>\<open>None\<close>, so the guarded branch is skipped and \<^verbatim>\<open>matches[0]\<close>
  raises \<^verbatim>\<open>IndexError\<close>. Evaluated at the text \<^verbatim>\<open>print(1)\<close> with the canned
  response as fallback.
\<close>

theorem get_python_code_no_block_raises:
  "get_python_code ''print(1)'' FAILED_RESPONSE = Inl IndexError"
  by (simp add: get_python_code_def re_findall_def findall.simps match_here_def
      open_fence_def nl_def)

text \<open>
  C4. A text whose first opening fence is followed by a body and a closing fence: the
  extractor returns that body, character for character. The opening fence does not occur
  before the block (so the block is the first one), and the body is what stands before
  the first closing fence: it contains no triple backtick and does not end in a backtick.
  Whatever follows the closing fence, further blocks included, has no influence.
\<close>

theorem get_python_code_first_block:
  assumes "\<not> occurs open_fence pre"
    and "\<not> occurs close_fence body"
    and "body = [] \<or> last body \<noteq> CHR 0x60"
  shows "get_python_code (pre @ open_fence @ body @ close_fence @ post) fb = Inr body"
  using findall_first_block [OF assms, of post]
  by (simp add: get_python_code_def re_findall_def)

theorem get_python_code_first_block_witness:
  "\<not> occurs open_fence (''Here:'' @ nl)
   \<and> \<not> occurs close_fence (''print(1)'' @ nl)
   \<and> (''print(1)'' @ nl = [] \<or> last (''print(1)'' @ nl) \<noteq> CHR 0x60)
   \<and> get_python_code ((''Here:'' @ nl) @ open_fence @ (''print(1)'' @ nl) @ close_fence
         @ (nl @ open_fence @ ''print(2)'' @ close_fence)) FAILED_RESPONSE
       = Inr (''print(1)'' @ nl)"
proof -
  have a: "\<not> occurs open_fence (''Here:'' @ nl)"
    by (simp add: open_fence_def nl_def)
  have b: "\<not> occurs close_fence (''print(1)'' @ nl)"
    by (simp add: close_fence_def nl_def)
  have c: "''print(1)'' @ nl = [] \<or> last (''print(1)'' @ nl) \<noteq> CHR 0x60"
    by (simp add: nl_def)
  from a b c get_python_code_first_block [OF a b c] show ?thesis
    by blast
qed

text \<open>
  C10. Only the opening fence \<^verbatim>\<open>```python\<close> followed by a line break is recognised: a
  text in which this literal does not occur (its blocks carry another tag or none) yields
  no match at all, and the extractor then behaves as it does without a match, which in the
  code is the \<^verbatim>\<open>IndexError\<close> of \<^verbatim>\<open>matches[0]\<close>.
\<close>

theorem get_python_code_other_fence:
  assumes "\<not> occurs open_fence s"
  shows "re_findall s = PyList [] \<and> get_python_code s fb = Inl IndexError"
  using findall_no_open [OF assms]
  by (simp add: get_python_code_def re_findall_def)

theorem get_python_code_other_fence_witness:
  "\<not> occurs open_fence (''```js'' @ nl @ ''x = 1'' @ nl @ ''```'' @ nl @ ''```'' @ nl @ ''y'' @ nl @ ''```'')
   \<and> re_findall (''```js'' @ nl @ ''x = 1'' @ nl @ ''```'' @ nl @ ''```'' @ nl @ ''y'' @ nl @ ''```'')
       = PyList []
   \<and> get_python_code (''```js'' @ nl @ ''x = 1'' @ nl @ ''```'' @ nl @ ''```'' @ nl @ ''y'' @ nl @ ''```'')
         FAILED_RESPONSE = Inl IndexError"
proof -
  have a: "\<not> occurs open_fence
      (''```js'' @ nl @ ''x = 1'' @ nl @ ''```'' @ nl @ ''```'' @ nl @ ''y'' @ nl @ ''```'')"
    by (simp add: open_fence_def nl_def)
  from a get_python_code_other_fence [OF a] show ?thesis
    by blast
qed

section \<open>The retry loop\<close>

text \<open>
  C2. When every call of the inference service raises the rate-limit error, the function
  makes exactly \<open>max_retries\<close> calls, not one more and not one less, sleeps between them
  (nine times) and ends by raising the rate-limit error of its last call. The handler
  ends in a bare \<^verbatim>\<open>raise\<close>, so what leaves the function is the last cause itself:
  the program has no exception class for exhausted retries and wraps nothing.
\<close>

theorem process_task_always_rate_limited:
  assumes "\<forall>n. completion e n model prompt = Raises (RateLimitError (msg n))"
  shows "case process_task e model prompt w of (res, w') \<Rightarrow>
           res = Inl (RateLimitError (msg (calls w + 9)))
           \<and> int (calls w') = int (calls w) + max_retries
           \<and> length (slept w') = length (slept w) + 9"
proof -
  have r: "\<forall>j<9. retryable (completion e (calls w + j) model prompt)"
    using assms by simp
  have "retry_loop e model prompt 0 w = retry_loop e model prompt (0 + int 9) (retries e 0 9 w)"
    using r by (intro retry_loop_skip) (simp_all add: max_retries_def)
  also have "\<dots> = (Inl (raised (completion e (calls (retries e 0 9 w)) model prompt)),
       (retries e 0 9 w)\<lparr>calls := Suc (calls (retries e 0 9 w))\<rparr>)"
    using assms by (intro retry_loop_exhausted) (simp_all add: max_retries_def)
  finally show ?thesis
    using assms by (simp add: process_task_def retries_slept max_retries_def)
qed

theorem process_task_always_rate_limited_witness:
  "fst (process_task (example_env [] None) ''m'' ''p'' fresh_world) = Inl (RateLimitError ''throttled'')
   \<and> calls (snd (process_task (example_env [] None) ''m'' ''p'' fresh_world)) = 10"
proof -
  have "\<forall>n. completion (example_env [] None) n ''m'' ''p'' = Raises (RateLimitError ((\<lambda>n. ''throttled'') n))"
    by (simp add: example_env_def script_def)
  from process_task_always_rate_limited [OF this, of fresh_world] show ?thesis
    by (simp add: fresh_world_def max_retries_def split: prod.splits)
qed

text \<open>
  The exception after ten throttled calls is the one that the tenth call raised, as it
  was raised, and not an exception of another class that holds it.
\<close>

theorem process_task_exhausted_raises_rate_limit_error:
  "completion (example_env rate_limited_calls None) 9 ''m'' ''p''
     = Raises (RateLimitError ''throttled at call 9'')
   \<and> process_task (example_env rate_limited_calls None) ''m'' ''p'' fresh_world
     = (Inl (RateLimitError ''throttled at call 9''),
        \<lparr>calls = 10, draws = 9, slept = [64, 121, 188, 245, 302, 369, 426, 483, 550],
           assigned = []\<rparr>)"
  by code_simp

text \<open>
  C3. The function returns a response exactly when some attempt it makes (every earlier
  attempt having failed in a way that is retried) yields a response with a positive
  completion-token count, and that response is the one returned. Such a response at the
  first attempt is returned at once: one call, no draw, no sleep. A response with count
  zero ends the \<^verbatim>\<open>try\<close> body with the exception of the empty completion, so it is
  never returned.
\<close>

theorem process_task_success_iff:
  "(fst (process_task e model prompt w) = Inr (Some r)
      \<longleftrightarrow> (\<exists>k. int k < max_retries
             \<and> (\<forall>j<k. retryable (completion e (calls w + j) model prompt))
             \<and> completion e (calls w + k) model prompt = Returns r
             \<and> 0 < completion_tokens r))
   \<and> (completion e (calls w) model prompt = Returns r \<and> 0 < completion_tokens r
        \<longrightarrow> process_task e model prompt w = (Inr (Some r), w\<lparr>calls := Suc (calls w)\<rparr>))
   \<and> (completion e (calls w) model prompt = Returns r \<and> completion_tokens r = 0
        \<longrightarrow> fst (try_completion e model prompt w)
              = Inl (NoContentGeneratedException (''completion tokens is 0, content='' @ content r)))"
proof (intro conjI impI iffI)
  assume "\<exists>k. int k < max_retries
      \<and> (\<forall>j<k. retryable (completion e (calls w + j) model prompt))
      \<and> completion e (calls w + k) model prompt = Returns r \<and> 0 < completion_tokens r"
  then obtain k where "int k < max_retries"
    "\<forall>j<k. retryable (completion e (calls w + j) model prompt)"
    "completion e (calls w + k) model prompt = Returns r" "0 < completion_tokens r"
    by blast
  from process_task_succeeds_at [OF this]
  show "fst (process_task e model prompt w) = Inr (Some r)" by simp
next
  assume "fst (process_task e model prompt w) = Inr (Some r)"
  then show "\<exists>k. int k < max_retries
      \<and> (\<forall>j<k. retryable (completion e (calls w + j) model prompt))
      \<and> completion e (calls w + k) model prompt = Returns r \<and> 0 < completion_tokens r"
    by (rule process_task_success_D)
next
  assume "completion e (calls w) model prompt = Returns r \<and> 0 < completion_tokens r"
  then have a: "completion e (calls w + 0) model prompt = Returns r" and b: "0 < completion_tokens r"
    by simp_all
  have "int 0 < max_retries" by (simp add: max_retries_def)
  from process_task_succeeds_at [OF this _ a b]
  show "process_task e model prompt w = (Inr (Some r), w\<lparr>calls := Suc (calls w)\<rparr>)" by simp
next
  assume "completion e (calls w) model prompt = Returns r \<and> completion_tokens r = 0"
  then show "fst (try_completion e model prompt w)
      = Inl (NoContentGeneratedException (''completion tokens is 0, content='' @ content r))"
    by (simp add: try_completion_def call_completion_def)
qed

theorem process_task_success_iff_witness:
  "fst (process_task (example_env [Returns blocked, Returns answer] None) ''m'' ''p'' fresh_world)
     = Inr (Some answer)"
proof -
  let ?e = "example_env [Returns blocked, Returns answer] None"
  have "int 1 < max_retries
      \<and> (\<forall>j<1. retryable (completion ?e (calls fresh_world + j) ''m'' ''p''))
      \<and> completion ?e (calls fresh_world + 1) ''m'' ''p'' = Returns answer
      \<and> 0 < completion_tokens answer"
    by (simp add: max_retries_def example_env_def script_def fresh_world_def blocked_def
        answer_def)
  then have "\<exists>k. int k < max_retries
      \<and> (\<forall>j<k. retryable (completion ?e (calls fresh_world + j) ''m'' ''p''))
      \<and> completion ?e (calls fresh_world + k) ''m'' ''p'' = Returns answer
      \<and> 0 < completion_tokens answer"
    by (rule exI)
  with process_task_success_iff [of ?e "''m''" "''p''" fresh_world answer]
  show ?thesis by blast
qed

text \<open>
  C6. An exception of the inference call that is neither the rate-limit error nor the
  exception of the empty completion leaves the function at once, at the first attempt
  and at any later one: the world differs from the one before the call by that one call
  only, so nothing was slept and no further attempt was made.
\<close>

theorem process_task_other_exception:
  assumes "completion e (calls w) model prompt = Raises x"
    and "\<forall>m. x \<noteq> NoContentGeneratedException m"
    and "\<forall>m. x \<noteq> RateLimitError m"
  shows "process_task e model prompt w = (Inl x, w\<lparr>calls := Suc (calls w)\<rparr>)
     \<and> (\<forall>attempt. attempt < max_retries \<longrightarrow>
          retry_loop e model prompt attempt w = (Inl x, w\<lparr>calls := Suc (calls w)\<rparr>))"
proof -
  from assms(2,3) have nr: "\<not> retryable (Raises x)" by (cases x) simp_all
  have "\<forall>attempt. attempt < max_retries \<longrightarrow>
      retry_loop e model prompt attempt w = (Inl x, w\<lparr>calls := Suc (calls w)\<rparr>)"
    using retry_loop_fatal [OF _ assms(1) nr] by blast
  moreover have "(0::int) < max_retries" by (simp add: max_retries_def)
  ultimately show ?thesis by (simp add: process_task_def)
qed

theorem process_task_other_exception_witness:
  "process_task (example_env [Raises (OtherException ''AuthenticationError'')] None) ''m'' ''p''
      fresh_world
     = (Inl (OtherException ''AuthenticationError''), \<lparr>calls = 1, draws = 0, slept = [], assigned = []\<rparr>)"
proof -
  let ?e = "example_env [Raises (OtherException ''AuthenticationError'')] None"
  have a: "completion ?e (calls fresh_world) ''m'' ''p'' = Raises (OtherException ''AuthenticationError'')"
    by (simp add: example_env_def script_def fresh_world_def)
  have b: "\<forall>m. OtherException ''AuthenticationError'' \<noteq> NoContentGeneratedException m" by simp
  have c: "\<forall>m. OtherException ''AuthenticationError'' \<noteq> RateLimitError m" by simp
  from process_task_other_exception [OF a b c] show ?thesis
    by (simp add: fresh_world_def)
qed

text \<open>
  C7. When the attempts \<open>0\<close> to \<open>i\<close> all fail in a way that is retried, \<open>i\<close> below
  \<open>max_retries - 1\<close>, the function sleeps after attempt \<open>i\<close>, before it makes the next
  call: the sleep is entry number \<open>i\<close> among the ones it adds, and it lasts
  \<open>60 * (i + 1)\<close> seconds plus a jitter. The jitter is the result of
  \<^verbatim>\<open>random.randint(1, 10)\<close> on an output of the generator that no other attempt uses,
  and lies between 1 and 10. The two constants are 10 attempts and 60 seconds.
  Uniform and independent: seen as a function of the outputs of the generator, one
  decimal digit for each draw, the jitters of the attempts \<open>0\<close> to \<open>i\<close> take every
  combination of values between 1 and 10, and each combination comes from exactly one
  combination of digits. So equally likely, independent outputs of the generator give
  equally likely, independent jitters.
\<close>

theorem process_task_backoff_delay:
  assumes "int i < max_retries - 1"
    and "\<forall>j\<le>i. retryable (completion e (calls w + j) model prompt)"
  shows "length (slept w) + i < length (slept (snd (process_task e model prompt w)))
     \<and> slept (snd (process_task e model prompt w)) ! (length (slept w) + i)
         = 60 * (int i + 1) + (1 + int (random_source e (draws w + i)) mod 10)
     \<and> 1 \<le> 1 + int (random_source e (draws w + i)) mod 10
     \<and> 1 + int (random_source e (draws w + i)) mod 10 \<le> 10
     \<and> calls w + i + 2 \<le> calls (snd (process_task e model prompt w))
     \<and> max_retries = 10 \<and> retry_delay = 60
     \<and> (\<forall>js. length js = Suc i \<and> (\<forall>v\<in>set js. 1 \<le> v \<and> v \<le> 10) \<longrightarrow>
          (\<exists>!rs. length rs = Suc i \<and> (\<forall>r\<in>set rs. r < 10)
             \<and> (\<forall>k\<le>i. slept (snd (process_task (with_draws e (draws w) rs) model prompt w))
                        ! (length (slept w) + k) = 60 * (int k + 1) + js ! k)))"
proof (intro conjI allI impI)
  show "length (slept w) + i < length (slept (snd (process_task e model prompt w)))"
    using assms by (rule process_task_delay_at(1))
  show "slept (snd (process_task e model prompt w)) ! (length (slept w) + i)
         = 60 * (int i + 1) + (1 + int (random_source e (draws w + i)) mod 10)"
    using process_task_delay_at(2) [OF assms] by (simp add: retry_delay_def jitter_at_def)
  show "1 \<le> 1 + int (random_source e (draws w + i)) mod 10" by simp
  show "1 + int (random_source e (draws w + i)) mod 10 \<le> 10" by simp
  show "calls w + i + 2 \<le> calls (snd (process_task e model prompt w))"
    using assms by (rule process_task_delay_at(3))
  show "max_retries = 10" by (simp add: max_retries_def)
  show "retry_delay = 60" by (simp add: retry_delay_def)
next
  fix js :: "int list"
  assume js: "length js = Suc i \<and> (\<forall>v\<in>set js. 1 \<le> v \<and> v \<le> 10)"
  have "(length rs = Suc i \<and> (\<forall>r\<in>set rs. r < 10)
          \<and> (\<forall>k\<le>i. slept (snd (process_task (with_draws e (draws w) rs) model prompt w))
                     ! (length (slept w) + k) = 60 * (int k + 1) + js ! k))
      \<longleftrightarrow> (length rs = Suc i \<and> (\<forall>r\<in>set rs. r < 10)
          \<and> (\<forall>k\<le>i. 1 + int (rs ! k) mod 10 = js ! k))" for rs
    using delay_with_draws [OF assms, of rs] by auto
  with digits_of_jitters [of js i] js
  show "\<exists>!rs. length rs = Suc i \<and> (\<forall>r\<in>set rs. r < 10)
             \<and> (\<forall>k\<le>i. slept (snd (process_task (with_draws e (draws w) rs) model prompt w))
                        ! (length (slept w) + k) = 60 * (int k + 1) + js ! k)"
    by simp
qed

theorem process_task_backoff_delay_witness:
  "slept (snd (process_task
       (example_env [Returns blocked, Raises (RateLimitError ''slow down''), Returns answer] None)
       ''m'' ''p'' fresh_world)) ! 1 = 121"
proof -
  let ?e = "example_env [Returns blocked, Raises (RateLimitError ''slow down''), Returns answer] None"
  have a: "int 1 < max_retries - 1" by (simp add: max_retries_def)
  have b: "\<forall>j\<le>1. retryable (completion ?e (calls fresh_world + j) ''m'' ''p'')"
    by (simp add: example_env_def script_def fresh_world_def blocked_def le_Suc_eq)
  from process_task_backoff_delay [OF a b] show ?thesis
    by (simp add: fresh_world_def example_env_def)
qed

text \<open>
  C8. When the first \<open>k\<close> calls raise the rate-limit error, \<open>k\<close> below \<open>max_retries\<close>,
  and the next call returns a response with a positive completion-token count, that
  response is returned, and in between the function sleeps \<open>k\<close> times, the \<open>i\<close>-th delay
  being at least \<open>retry_delay * (i + 1)\<close>, so that the total is at least the sum of these
  bounds.
\<close>

theorem process_task_recovers:
  assumes "int k < max_retries"
    and "\<forall>j<k. completion e (calls w + j) model prompt = Raises (RateLimitError (msg j))"
    and "completion e (calls w + k) model prompt = Returns r"
    and "0 < completion_tokens r"
  shows "case process_task e model prompt w of (res, w') \<Rightarrow>
           res = Inr (Some r)
           \<and> (\<exists>delays. slept w' = slept w @ delays \<and> length delays = k
                \<and> (\<forall>i<k. retry_delay * (int i + 1) \<le> delays ! i)
                \<and> (\<Sum>i<k. retry_delay * (int i + 1)) \<le> sum_list delays)"
proof -
  let ?delays = "map (\<lambda>i. retry_delay * (int i + 1) + jitter_at e (draws w + i)) [0..<k]"
  have r: "\<forall>j<k. retryable (completion e (calls w + j) model prompt)"
    using assms(2) by simp
  have "slept ((retries e 0 k w)\<lparr>calls := Suc (calls w + k)\<rparr>) = slept w @ ?delays"
    by (simp add: retries_slept)
  moreover have "length ?delays = k" by simp
  moreover have "\<forall>i<k. retry_delay * (int i + 1) \<le> ?delays ! i"
    using jitter_at_range [of e] by (simp add: order_trans [OF zero_le_one])
  moreover note sum_list_backoff [of k e "draws w"]
  ultimately have "\<exists>delays. slept ((retries e 0 k w)\<lparr>calls := Suc (calls w + k)\<rparr>) = slept w @ delays
      \<and> length delays = k
      \<and> (\<forall>i<k. retry_delay * (int i + 1) \<le> delays ! i)
      \<and> (\<Sum>i<k. retry_delay * (int i + 1)) \<le> sum_list delays"
    by blast
  with process_task_succeeds_at [OF assms(1) r assms(3,4)] show ?thesis
    by simp
qed

theorem process_task_recovers_witness:
  "fst (process_task (example_env [Raises (RateLimitError ''slow down''),
          Raises (RateLimitError ''slow down''), Returns answer] None) ''m'' ''p'' fresh_world)
     = Inr (Some answer)"
proof -
  let ?e = "example_env [Raises (RateLimitError ''slow down''),
          Raises (RateLimitError ''slow down''), Returns answer] None"
  have a: "int 2 < max_retries" by (simp add: max_retries_def)
  have b: "\<forall>j<2. completion ?e (calls fresh_world + j) ''m'' ''p''
      = Raises (RateLimitError ((\<lambda>j. ''slow down'') j))"
    by (simp add: example_env_def script_def fresh_world_def less_Suc_eq numeral_2_eq_2)
  have c: "completion ?e (calls fresh_world + 2) ''m'' ''p'' = Returns answer"
    by (simp add: example_env_def script_def fresh_world_def)
  have d: "0 < completion_tokens answer" by (simp add: answer_def)
  from process_task_recovers [OF a b c d] show ?thesis
    by (simp split: prod.splits)
qed

section \<open>The run\<close>

text \<open>
  C5. With the template file in place, the run returns the input with the response field
  of every task assigned, each exactly once and in the order of the tasks, and nothing
  else changed. The response of a task is the canned response when its \<^verbatim>\<open>try\<close>
  block raised (retries exhausted, another exception of the inference call, no code
  block in the content), and otherwise the first code block of the content of a response
  with a positive completion-token count. In both cases the round of the next task
  starts, so an exception in one task leaves the other tasks their own responses.
\<close>

theorem run_sets_every_response:
  assumes "files e (prompt_template_path kw) = Some tpl" and "distinct (map fst input)"
  shows "\<exists>out w'. run e kw input w = (Inr out, w')
     \<and> map fst out = map fst input
     \<and> assigned w' = assigned w @ map fst input
     \<and> (\<forall>i<length input.
           description (snd (out ! i)) = description (snd (input ! i))
           \<and> (case fst (try_block e kw tpl (snd (input ! i)) (world_before e kw tpl input i w)) of
                Inl x \<Rightarrow> response (snd (out ! i)) = Some FAILED_RESPONSE
              | Inr python_code \<Rightarrow>
                  response (snd (out ! i)) = Some python_code
                  \<and> (\<exists>prompt r ms.
                        format e tpl (description (snd (input ! i))) = Inr prompt
                        \<and> fst (process_task e (model_name kw) prompt
                                 (world_before e kw tpl input i w)) = Inr (Some r)
                        \<and> 0 < completion_tokens r
                        \<and> findall (content r) = python_code # ms)))"
proof -
  from run_present [OF assms, of w] obtain out w' where
    r: "run e kw input w = (Inr out, w')"
    and k: "map fst out = map fst input"
    and a: "assigned w' = assigned w @ map fst input"
    and v: "\<forall>i<length input.
           description (snd (out ! i)) = description (snd (input ! i))
           \<and> response (snd (out ! i))
               = Some (task_response e kw tpl (snd (input ! i)) (world_before e kw tpl input i w))"
    by blast
  have "\<forall>i<length input.
           description (snd (out ! i)) = description (snd (input ! i))
           \<and> (case fst (try_block e kw tpl (snd (input ! i)) (world_before e kw tpl input i w)) of
                Inl x \<Rightarrow> response (snd (out ! i)) = Some FAILED_RESPONSE
              | Inr python_code \<Rightarrow>
                  response (snd (out ! i)) = Some python_code
                  \<and> (\<exists>prompt r ms.
                        format e tpl (description (snd (input ! i))) = Inr prompt
                        \<and> fst (process_task e (model_name kw) prompt
                                 (world_before e kw tpl input i w)) = Inr (Some r)
                        \<and> 0 < completion_tokens r
                        \<and> findall (content r) = python_code # ms))"
  proof (intro allI impI)
    fix i assume i: "i < length input"
    let ?t = "snd (input ! i)" and ?w = "world_before e kw tpl input i w"
    from v i have d: "description (snd (out ! i)) = description ?t"
      and resp: "response (snd (out ! i)) = Some (task_response e kw tpl ?t ?w)"
      by simp_all
    show "description (snd (out ! i)) = description ?t
        \<and> (case fst (try_block e kw tpl ?t ?w) of
              Inl x \<Rightarrow> response (snd (out ! i)) = Some FAILED_RESPONSE
            | Inr python_code \<Rightarrow>
                response (snd (out ! i)) = Some python_code
                \<and> (\<exists>prompt r ms.
                      format e tpl (description ?t) = Inr prompt
                      \<and> fst (process_task e (model_name kw) prompt ?w) = Inr (Some r)
                      \<and> 0 < completion_tokens r
                      \<and> findall (content r) = python_code # ms))"
    proof (cases "fst (try_block e kw tpl ?t ?w)")
      case (Inl x)
      with d resp show ?thesis by (simp add: task_response_def)
    next
      case (Inr c)
      from try_block_code [OF Inr] d resp Inr show ?thesis
        by (simp add: task_response_def)
    qed
  qed
  with r k a show ?thesis by blast
qed

theorem run_sets_every_response_witness:
  "\<exists>out w'. run (example_env (replicate 10 (Returns blocked) @ [Returns answer]) (Some ''Solve: ''))
        example_kwargs example_tasks fresh_world = (Inr out, w')
     \<and> map fst out = [''task_1'', ''task_2'']
     \<and> assigned w' = [''task_1'', ''task_2'']"
proof -
  let ?e = "example_env (replicate 10 (Returns blocked) @ [Returns answer]) (Some ''Solve: '')"
  have a: "files ?e (prompt_template_path example_kwargs) = Some ''Solve: ''"
    by (simp add: example_env_def example_kwargs_def)
  have b: "distinct (map fst example_tasks)"
    by (simp add: example_tasks_def)
  from run_sets_every_response [OF a b, of fresh_world] obtain out w' where
    "run ?e example_kwargs example_tasks fresh_world = (Inr out, w')"
    "map fst out = map fst example_tasks"
    "assigned w' = assigned fresh_world @ map fst example_tasks"
    by blast
  then show ?thesis
    by (simp add: example_tasks_def fresh_world_def)
qed

text \<open>
  C9. Without the template file and with at least one task, the run raises
  \<^verbatim>\<open>FileNotFoundError\<close> in the round of the first task, outside the \<^verbatim>\<open>try\<close> block:
  no inference call is made and no response field is assigned. The existence of the file
  is checked inside the loop over the tasks, so a run over no tasks at all returns the
  empty input and raises nothing.
\<close>

theorem run_template_missing:
  assumes "files e (prompt_template_path kw) = None" and "input \<noteq> []"
  shows "run e kw input w = (Inl FileNotFoundError, w)"
proof -
  from assms(2) obtain task_id t rest where "input = (task_id, t) # rest"
    by (cases input) auto
  with assms(1) show ?thesis by (simp add: run_def run_task_def)
qed

theorem run_template_missing_witness:
  "run (example_env [] None) example_kwargs example_tasks fresh_world
     = (Inl FileNotFoundError, fresh_world)"
proof -
  have a: "files (example_env [] None) (prompt_template_path example_kwargs) = None"
    by (simp add: example_env_def example_kwargs_def)
  have b: "example_tasks \<noteq> []" by (simp add: example_tasks_def)
  from run_template_missing [OF a b] show ?thesis .
qed

theorem run_template_missing_empty_input:
  "files (example_env [] None) (prompt_template_path example_kwargs) = None
   \<and> run (example_env [] None) example_kwargs [] fresh_world = (Inr [], fresh_world)
   \<and> fst (run (example_env [] None) example_kwargs [] fresh_world) \<noteq> Inl FileNotFoundError"
  by (simp add: example_env_def example_kwargs_def run_def)

end
